theory Spec2Isabelle
  imports Complex_Main
begin

section \<open>Wayfinding core: graph and constrained breadth-first search\<close>

text \<open>
  A shallow embedding of \<^verbatim>\<open>src/core/pathfinding.js\<close>: the class
  \<^verbatim>\<open>WayfindingGraph\<close> (a record, its methods returning the updated record), the
  class \<^verbatim>\<open>Pathfinder\<close> (functions of the graph it holds) and the thrown
  \<^verbatim>\<open>PathfindingError\<close> (the left summand of a result).

  Node ids and node type tags are JavaScript strings, here \<open>string\<close> over 8-bit code
  units. A JavaScript \<^verbatim>\<open>Set\<close> or \<^verbatim>\<open>Map\<close> that the code iterates over is a list
  in insertion order; a set that is only tested for membership is a HOL set.
\<close>

subsection \<open>Node types and errors\<close>

type_synonym node_id = string
type_synonym node_type = string

definition WAYPOINT :: node_type where "WAYPOINT = ''waypoint''"
definition DI_BOX :: node_type where "DI_BOX = ''di_box''"
definition CABINET :: node_type where "CABINET = ''cabinet''"
definition FOSSIL :: node_type where "FOSSIL = ''fossil''"
definition UNKNOWN :: node_type where "UNKNOWN = ''unknown''"

text \<open>The values of the object \<^verbatim>\<open>NODE_TYPES\<close>, in its order.\<close>

definition NODE_TYPES :: "node_type list" where
  "NODE_TYPES = [WAYPOINT, DI_BOX, CABINET, FOSSIL, UNKNOWN]"

datatype error_code = INVALID_NODE_ID | INVALID_COORDINATES | NODE_NOT_FOUND | INVALID_GRAPH

text \<open>
  \<^verbatim>\<open>PathfindingError(message, code)\<close>, and the \<^verbatim>\<open>TypeError\<close> that JavaScript itself
  raises when a method is called on \<^verbatim>\<open>undefined\<close>.
\<close>

datatype error = PathfindingError (message: string) (code: error_code) | TypeError

subsection \<open>JavaScript values passed where the code checks the shape\<close>

text \<open>
  \<^verbatim>\<open>addNode\<close> tests its arguments dynamically (\<^verbatim>\<open>typeof\<close>, truthiness,
  \<^verbatim>\<open>Array.isArray\<close>, \<^verbatim>\<open>length\<close>), so they are values of a small universe.
  \<open>JObj\<close> stands for any object that is not an array.
\<close>

datatype js_value =
    JUndefined
  | JNull
  | JBool bool
  | JNum real
  | JNaN
  | JStr string
  | JArr "js_value list"
  | JObj

fun truthy :: "js_value \<Rightarrow> bool" where
  "truthy JUndefined = False"
| "truthy JNull = False"
| "truthy (JBool b) = b"
| "truthy (JNum r) = (r \<noteq> 0)"
| "truthy JNaN = False"
| "truthy (JStr s) = (s \<noteq> [])"
| "truthy (JArr vs) = True"
| "truthy JObj = True"

fun isArray :: "js_value \<Rightarrow> bool" where
  "isArray (JArr vs) = True"
| "isArray v = False"

text \<open>\<^verbatim>\<open>coordinates.length\<close>; a string has one too, other values have none.\<close>

fun js_length :: "js_value \<Rightarrow> nat option" where
  "js_length (JArr vs) = Some (length vs)"
| "js_length (JStr s) = Some (length s)"
| "js_length v = None"

text \<open>
  \<^verbatim>\<open>String.prototype.trim\<close> removes white space and line terminators at both ends;
  within 8-bit code units these are tab, line feed, vertical tab, form feed, carriage
  return, space and the no-break space.
\<close>

definition isWhiteSpace :: "char \<Rightarrow> bool" where
  "isWhiteSpace c \<longleftrightarrow>
     c \<in> set [CHR 0x09, CHR 0x0A, CHR 0x0B, CHR 0x0C, CHR 0x0D, CHR 0x20, CHR 0xA0]"

definition trim :: "string \<Rightarrow> string" where
  "trim s = rev (dropWhile isWhiteSpace (rev (dropWhile isWhiteSpace s)))"

subsection \<open>The graph\<close>

record WayfindingGraph =
  nodes :: "node_id list"
  adjacencyList :: "(node_id \<times> node_id list) list"
  nodeTypes :: "(node_id \<times> node_type) list"
  nodeCoordinates :: "(node_id \<times> js_value) list"
  walkingPaths :: "js_value list"
  fixturePolygons :: "(node_id \<times> js_value) list"

text \<open>The constructor.\<close>

definition new_WayfindingGraph :: WayfindingGraph where
  "new_WayfindingGraph =
     \<lparr>nodes = [], adjacencyList = [], nodeTypes = [], nodeCoordinates = [],
      walkingPaths = [], fixturePolygons = []\<rparr>"

text \<open>\<^verbatim>\<open>Set.prototype.add\<close>: a new element goes to the end, an old one stays.\<close>

definition set_add :: "'a \<Rightarrow> 'a list \<Rightarrow> 'a list" where
  "set_add x xs = (if x \<in> set xs then xs else xs @ [x])"

text \<open>\<^verbatim>\<open>Map.prototype.set\<close>: an old key keeps its place and takes the new value.\<close>

fun map_set :: "'k \<Rightarrow> 'v \<Rightarrow> ('k \<times> 'v) list \<Rightarrow> ('k \<times> 'v) list" where
  "map_set k v [] = [(k, v)]"
| "map_set k v (p # ps) = (if fst p = k then (k, v) # ps else p # map_set k v ps)"

text \<open>\<^verbatim>\<open>Map.prototype.get\<close> is \<open>map_of\<close>, with \<open>None\<close> for \<^verbatim>\<open>undefined\<close>.\<close>

definition invalid_node_id_error :: error where
  "invalid_node_id_error =
     PathfindingError ''Node ID must be a non-empty string'' INVALID_NODE_ID"

definition invalid_coordinates_error :: error where
  "invalid_coordinates_error =
     PathfindingError ''Coordinates must be an array of [longitude, latitude]''
       INVALID_COORDINATES"

definition source_not_found_error :: "node_id \<Rightarrow> error" where
  "source_not_found_error sourceId =
     PathfindingError
       (''Source node '' @ [CHR 0x27] @ sourceId @ [CHR 0x27] @ '' not found in graph'')
       NODE_NOT_FOUND"

definition target_not_found_error :: "node_id \<Rightarrow> error" where
  "target_not_found_error targetId =
     PathfindingError
       (''Target node '' @ [CHR 0x27] @ targetId @ [CHR 0x27] @ '' not found in graph'')
       NODE_NOT_FOUND"

text \<open>
  \<^verbatim>\<open>addNode(nodeId, type, coordinates)\<close>. The result pairs what the call raises
  (\<open>Inl\<close>) or its normal return (\<open>Inr ()\<close>) with the graph as the call leaves it: the
  insertions into \<^verbatim>\<open>nodes\<close> and \<^verbatim>\<open>nodeTypes\<close> come before the test of the
  coordinates and are not undone by the throw. \<open>type\<close> is the parameter after its default
  \<^verbatim>\<open>NODE_TYPES.UNKNOWN\<close> has been applied.
\<close>

definition addNode ::
  "WayfindingGraph \<Rightarrow> js_value \<Rightarrow> node_type \<Rightarrow> js_value \<Rightarrow> (error + unit) \<times> WayfindingGraph"
where
  "addNode g nodeId type coordinates =
     (case nodeId of
        JStr s \<Rightarrow>
          if trim s = [] then (Inl invalid_node_id_error, g)
          else
            let g1 = g\<lparr>nodes := set_add s (nodes g),
                       nodeTypes := map_set s type (nodeTypes g)\<rparr>;
                ensure_adjacency = (\<lambda>h.
                  if map_of (adjacencyList h) s = None
                  then h\<lparr>adjacencyList := map_set s [] (adjacencyList h)\<rparr> else h)
            in
              if truthy coordinates then
                if \<not> isArray coordinates \<or> js_length coordinates \<noteq> Some 2
                then (Inl invalid_coordinates_error, g1)
                else (Inr (), ensure_adjacency
                        (g1\<lparr>nodeCoordinates := map_set s coordinates (nodeCoordinates g1)\<rparr>))
              else (Inr (), ensure_adjacency g1)
      | _ \<Rightarrow> (Inl invalid_node_id_error, g))"

text \<open>
  \<^verbatim>\<open>addEdge(sourceId, targetId, bidirectional)\<close>. A node that a failed
  \<^verbatim>\<open>addNode\<close> left without an adjacency entry makes \<^verbatim>\<open>adjacencyList.get(..).add\<close>
  a call on \<^verbatim>\<open>undefined\<close>.
\<close>

definition addEdge ::
  "WayfindingGraph \<Rightarrow> node_id \<Rightarrow> node_id \<Rightarrow> bool \<Rightarrow> (error + unit) \<times> WayfindingGraph"
where
  "addEdge g sourceId targetId bidirectional =
     (if sourceId \<notin> set (nodes g) then (Inl (source_not_found_error sourceId), g)
      else if targetId \<notin> set (nodes g) then (Inl (target_not_found_error targetId), g)
      else
        case map_of (adjacencyList g) sourceId of
          None \<Rightarrow> (Inl TypeError, g)
        | Some ns \<Rightarrow>
            let g1 = g\<lparr>adjacencyList := map_set sourceId (set_add targetId ns) (adjacencyList g)\<rparr>
            in if bidirectional then
                 case map_of (adjacencyList g1) targetId of
                   None \<Rightarrow> (Inl TypeError, g1)
                 | Some ms \<Rightarrow>
                     (Inr (), g1\<lparr>adjacencyList :=
                                   map_set targetId (set_add sourceId ms) (adjacencyList g1)\<rparr>)
               else (Inr (), g1))"

text \<open>\<^verbatim>\<open>nodeTypes.get(nodeId) || NODE_TYPES.UNKNOWN\<close>: the empty string is falsy.\<close>

definition getNodeType :: "WayfindingGraph \<Rightarrow> node_id \<Rightarrow> node_type" where
  "getNodeType g nodeId =
     (case map_of (nodeTypes g) nodeId of
        None \<Rightarrow> UNKNOWN
      | Some t \<Rightarrow> if t = [] then UNKNOWN else t)"

text \<open>\<^verbatim>\<open>nodeCoordinates.get(nodeId) || null\<close>.\<close>

definition getNodeCoordinates :: "WayfindingGraph \<Rightarrow> node_id \<Rightarrow> js_value" where
  "getNodeCoordinates g nodeId =
     (case map_of (nodeCoordinates g) nodeId of
        None \<Rightarrow> JNull
      | Some c \<Rightarrow> if truthy c then c else JNull)"

definition getNeighbors :: "WayfindingGraph \<Rightarrow> node_id \<Rightarrow> node_id list" where
  "getNeighbors g nodeId =
     (case map_of (adjacencyList g) nodeId of None \<Rightarrow> [] | Some neighbors \<Rightarrow> neighbors)"

definition hasNode :: "WayfindingGraph \<Rightarrow> node_id \<Rightarrow> bool" where
  "hasNode g nodeId \<longleftrightarrow> nodeId \<in> set (nodes g)"

text \<open>
  \<^verbatim>\<open>getStatistics()\<close>. \<open>typeCount\<close> is the object built by the loop over
  \<^verbatim>\<open>nodeTypes.values()\<close>, keyed by type tag; it is returned under the key
  \<^verbatim>\<open>nodeTypes\<close>. \<open>totalEdges\<close> is a JavaScript number, the sum of the sizes of the
  neighbour sets divided by two: the sum is a natural number and halving it is exact, so
  it is a rational here.
\<close>

record statistics =
  totalNodes :: nat
  typeCount :: "(node_type \<times> nat) list"
  totalEdges :: rat
  walkingPathsCount :: nat
  fixturePolygonsCount :: nat

fun count_types :: "node_type list \<Rightarrow> (node_type \<times> nat) list \<Rightarrow> (node_type \<times> nat) list" where
  "count_types [] tc = tc"
| "count_types (t # ts) tc =
     count_types ts
       (map_set t ((case map_of tc t of None \<Rightarrow> 0 | Some c \<Rightarrow> c) + 1) tc)"

definition getStatistics :: "WayfindingGraph \<Rightarrow> statistics" where
  "getStatistics g =
     \<lparr>totalNodes = length (nodes g),
      typeCount = count_types (map snd (nodeTypes g)) [],
      totalEdges =
        of_nat (foldl (\<lambda>sum neighbors. sum + length neighbors) 0
                  (map snd (adjacencyList g))) / 2,
      walkingPathsCount = length (walkingPaths g),
      fixturePolygonsCount = length (fixturePolygons g)\<rparr>"

subsection \<open>The routing predicate\<close>

definition isFixtureType :: "node_type \<Rightarrow> bool" where
  "isFixtureType nodeType \<longleftrightarrow>
     nodeType = DI_BOX \<or> nodeType = CABINET \<or> nodeType = FOSSIL"

definition canVisitNeighbor :: "node_type \<Rightarrow> node_type \<Rightarrow> bool \<Rightarrow> bool" where
  "canVisitNeighbor currentType neighborType allowDirectFixtureConnections =
     (if currentType = WAYPOINT \<and> neighborType = WAYPOINT then True
      else if isFixtureType currentType \<and> neighborType = WAYPOINT then True
      else if currentType = WAYPOINT \<and> isFixtureType neighborType then True
      else if isFixtureType currentType \<and> isFixtureType neighborType then False
      else if currentType = UNKNOWN \<or> neighborType = UNKNOWN
        then allowDirectFixtureConnections
      else False)"

subsection \<open>The search\<close>

text \<open>
  The options of \<^verbatim>\<open>findPath\<close> after destructuring with their defaults. \<open>maxDepth\<close> is
  an integer; the loop test \<^verbatim>\<open>iterations < maxDepth\<close> lets \<open>nat maxDepth\<close> iterations
  run, none for a bound that is zero or negative.
\<close>

record options =
  allowDirectFixtureConnections :: bool
  maxDepth :: int
  excludeNodes :: "node_id set"

definition default_options :: options where
  "default_options =
     \<lparr>allowDirectFixtureConnections = False, maxDepth = 1000, excludeNodes = {}\<rparr>"

text \<open>
  The \<^verbatim>\<open>for\<close> loop over the neighbours of the current node. \<open>Inl newPath\<close> is the
  \<^verbatim>\<open>return newPath\<close> out of both loops; \<open>Inr (queue, visited)\<close> is the state when the
  loop has run through.
\<close>

fun explore ::
  "WayfindingGraph \<Rightarrow> options \<Rightarrow> node_id \<Rightarrow> node_id list \<Rightarrow> node_type \<Rightarrow> node_id list \<Rightarrow>
   node_id list list \<Rightarrow> node_id set \<Rightarrow> node_id list + (node_id list list \<times> node_id set)"
where
  "explore g opts targetId currentPath currentNodeType [] queue visited =
     Inr (queue, visited)"
| "explore g opts targetId currentPath currentNodeType (neighbor # rest) queue visited =
     (if neighbor \<in> visited \<or> neighbor \<in> excludeNodes opts
      then explore g opts targetId currentPath currentNodeType rest queue visited
      else if \<not> canVisitNeighbor currentNodeType (getNodeType g neighbor)
                  (allowDirectFixtureConnections opts)
      then explore g opts targetId currentPath currentNodeType rest queue visited
      else
        let newPath = currentPath @ [neighbor] in
          if neighbor = targetId then Inl newPath
          else explore g opts targetId currentPath currentNodeType rest
                 (queue @ [newPath]) (insert neighbor visited))"

text \<open>
  The \<^verbatim>\<open>while\<close> loop, by recursion on the iterations that remain
  (\<^verbatim>\<open>maxDepth - iterations\<close>). An empty path in the queue would make
  \<^verbatim>\<open>currentNode\<close> \<^verbatim>\<open>undefined\<close>, of type \<^verbatim>\<open>unknown\<close> and without neighbours.
\<close>

fun bfs ::
  "WayfindingGraph \<Rightarrow> options \<Rightarrow> node_id \<Rightarrow> nat \<Rightarrow> node_id list list \<Rightarrow> node_id set \<Rightarrow>
   node_id list option"
where
  "bfs g opts targetId 0 queue visited = None"
| "bfs g opts targetId (Suc remaining) [] visited = None"
| "bfs g opts targetId (Suc remaining) (currentPath # queue) visited =
     (if currentPath = [] then bfs g opts targetId remaining queue visited
      else
        let currentNode = last currentPath;
            currentNodeType = getNodeType g currentNode
        in case explore g opts targetId currentPath currentNodeType
                  (getNeighbors g currentNode) queue visited of
             Inl newPath \<Rightarrow> Some newPath
           | Inr (queue', visited') \<Rightarrow> bfs g opts targetId remaining queue' visited')"

text \<open>\<^verbatim>\<open>findPath\<close>: \<open>Inl\<close> is the thrown error, \<open>Inr None\<close> is \<^verbatim>\<open>null\<close>.\<close>

definition findPath ::
  "WayfindingGraph \<Rightarrow> node_id \<Rightarrow> node_id \<Rightarrow> options \<Rightarrow> error + node_id list option"
where
  "findPath g sourceId targetId opts =
     (if \<not> hasNode g sourceId then Inl (source_not_found_error sourceId)
      else if \<not> hasNode g targetId then Inl (target_not_found_error targetId)
      else if sourceId = targetId then Inr (Some [sourceId])
      else Inr (bfs g opts targetId (nat (maxDepth opts)) [[sourceId]] {sourceId}))"

text \<open>
  \<^verbatim>\<open>findMultiplePaths\<close>: the loop \<^verbatim>\<open>for (let i = 0; i < maxPaths; i++)\<close> by recursion
  on the rounds that remain. The nodes \<^verbatim>\<open>path[1] .. path[length - 2]\<close> are
  \<open>butlast (tl path)\<close>.
\<close>

fun multiple_paths_loop ::
  "WayfindingGraph \<Rightarrow> node_id \<Rightarrow> node_id \<Rightarrow> options \<Rightarrow> nat \<Rightarrow> node_id list list \<Rightarrow>
   node_id set \<Rightarrow> error + node_id list list"
where
  "multiple_paths_loop g sourceId targetId opts 0 paths visited = Inr paths"
| "multiple_paths_loop g sourceId targetId opts (Suc remaining) paths visited =
     (case findPath g sourceId targetId (opts\<lparr>excludeNodes := visited\<rparr>) of
        Inl e \<Rightarrow> Inl e
      | Inr None \<Rightarrow> Inr paths
      | Inr (Some path) \<Rightarrow>
          multiple_paths_loop g sourceId targetId opts remaining (paths @ [path])
            (visited \<union> set (butlast (tl path))))"

definition findMultiplePaths ::
  "WayfindingGraph \<Rightarrow> node_id \<Rightarrow> node_id \<Rightarrow> int \<Rightarrow> options \<Rightarrow> error + node_id list list"
where
  "findMultiplePaths g sourceId targetId maxPaths opts =
     multiple_paths_loop g sourceId targetId opts (nat maxPaths) [] {}"

subsection \<open>Walks that the search may take\<close>

text \<open>
  One step of the search from \<open>u\<close> to \<open>v\<close>, as the body of the \<^verbatim>\<open>for\<close> loop
  admits it for a neighbour not yet visited: \<open>v\<close> is among the neighbours of \<open>u\<close>, is
  not in \<^verbatim>\<open>excludeNodes\<close>, and the routing predicate allows the pair of types.
\<close>

definition hop :: "WayfindingGraph \<Rightarrow> options \<Rightarrow> node_id \<Rightarrow> node_id \<Rightarrow> bool" where
  "hop g opts u v \<longleftrightarrow>
     v \<in> set (getNeighbors g u) \<and> v \<notin> excludeNodes opts \<and>
     canVisitNeighbor (getNodeType g u) (getNodeType g v) (allowDirectFixtureConnections opts)"

text \<open>A walk is a non-empty sequence of nodes, each step of it a \<open>hop\<close>.\<close>

fun is_walk :: "WayfindingGraph \<Rightarrow> options \<Rightarrow> node_id list \<Rightarrow> bool" where
  "is_walk g opts [] = False"
| "is_walk g opts [x] = True"
| "is_walk g opts (x # y # r) = (hop g opts x y \<and> is_walk g opts (y # r))"

definition walk_from :: "WayfindingGraph \<Rightarrow> options \<Rightarrow> node_id \<Rightarrow> node_id list \<Rightarrow> bool" where
  "walk_from g opts s p \<longleftrightarrow> is_walk g opts p \<and> hd p = s"

text \<open>
  The nodes strictly between the endpoints of a path are \<open>butlast (tl p)\<close>;
  \<open>waypoint_between\<close> says that one of them has the type \<^verbatim>\<open>waypoint\<close>.
\<close>

definition waypoint_between :: "WayfindingGraph \<Rightarrow> node_id list \<Rightarrow> bool" where
  "waypoint_between g p \<longleftrightarrow> WAYPOINT \<in> set (map (getNodeType g) (butlast (tl p)))"

text \<open>
  The specification's wording for coordinates, ``exactly a 2-tuple of numbers'':
  \<^verbatim>\<open>NaN\<close> has \<^verbatim>\<open>typeof\<close> \<^verbatim>\<open>'number'\<close> as well.
\<close>

fun is_number :: "js_value \<Rightarrow> bool" where
  "is_number (JNum r) = True"
| "is_number JNaN = True"
| "is_number v = False"

fun spec_numeric_pair :: "js_value \<Rightarrow> bool" where
  "spec_numeric_pair (JArr [x, y]) = (is_number x \<and> is_number y)"
| "spec_numeric_pair v = False"

subsection \<open>Invariants of the two loops\<close>

text \<open>
  \<open>bfs_inv\<close> holds of the queue and the visited set at the head of the \<^verbatim>\<open>while\<close>
  loop, for a search from \<open>s\<close> to \<open>t\<close>: the queued paths are walks from \<open>s\<close> that end
  in visited nodes and are shortest to their ends, their lengths ascend along the queue
  and differ by one at most, a visited node that ends no queued path has all its
  successors visited, and every walk that ends outside the visited set is longer than the
  path at the front. \<open>explore_inv\<close> is the same inside the \<^verbatim>\<open>for\<close> loop, with the
  dequeued path \<open>cur\<close> and the neighbours \<open>rest\<close> still to come.
\<close>

definition explore_inv ::
  "WayfindingGraph \<Rightarrow> options \<Rightarrow> node_id \<Rightarrow> node_id \<Rightarrow> node_id list \<Rightarrow> node_id list \<Rightarrow>
   node_id list list \<Rightarrow> node_id set \<Rightarrow> bool" where
  "explore_inv g opts s t cur rest queue visited \<longleftrightarrow>
     walk_from g opts s cur \<and> last cur \<in> visited \<and> t \<notin> visited \<and>
     set rest \<subseteq> set (getNeighbors g (last cur)) \<and>
     (\<forall>q\<in>set queue. walk_from g opts s q \<and> last q \<in> visited) \<and>
     (\<forall>u\<in>visited. u \<noteq> last cur \<and> (\<forall>q\<in>set queue. last q \<noteq> u) \<longrightarrow>
         (\<forall>v. hop g opts u v \<longrightarrow> v \<in> visited)) \<and>
     (\<forall>v. hop g opts (last cur) v \<and> v \<notin> set rest \<longrightarrow> v \<in> visited) \<and>
     (\<forall>q\<in>set queue. \<forall>w. walk_from g opts s w \<and> last w = last q \<longrightarrow> length q \<le> length w) \<and>
     sorted (map length queue) \<and>
     (\<forall>q\<in>set queue. length cur \<le> length q \<and> length q \<le> Suc (length cur)) \<and>
     (\<forall>w. walk_from g opts s w \<and> last w \<notin> visited \<longrightarrow> Suc (length cur) \<le> length w)"

definition bfs_inv ::
  "WayfindingGraph \<Rightarrow> options \<Rightarrow> node_id \<Rightarrow> node_id \<Rightarrow> node_id list list \<Rightarrow> node_id set \<Rightarrow> bool" where
  "bfs_inv g opts s t queue visited \<longleftrightarrow>
     (\<forall>q\<in>set queue. walk_from g opts s q \<and> last q \<in> visited) \<and>
     t \<notin> visited \<and>
     (\<forall>u\<in>visited. (\<forall>q\<in>set queue. last q \<noteq> u) \<longrightarrow> (\<forall>v. hop g opts u v \<longrightarrow> v \<in> visited)) \<and>
     (\<forall>q\<in>set queue. \<forall>w. walk_from g opts s w \<and> last w = last q \<longrightarrow> length q \<le> length w) \<and>
     sorted (map length queue) \<and>
     (queue \<noteq> [] \<longrightarrow>
        (\<forall>q\<in>set queue. length q \<le> Suc (length (hd queue))) \<and>
        (\<forall>w. walk_from g opts s w \<and> last w \<notin> visited \<longrightarrow> Suc (length (hd queue)) \<le> length w))"

subsection \<open>Example graphs\<close>

text \<open>Graphs are built by the calls a client makes; a call that raises is skipped.\<close>

datatype graph_op = AddNode node_id node_type | AddEdge node_id node_id bool

fun build_graph :: "graph_op list \<Rightarrow> WayfindingGraph \<Rightarrow> WayfindingGraph" where
  "build_graph [] g = g"
| "build_graph (AddNode n t # ops) g = build_graph ops (snd (addNode g (JStr n) t JNull))"
| "build_graph (AddEdge a b bi # ops) g = build_graph ops (snd (addEdge g a b bi))"

text \<open>
  The waypoint chain \<^verbatim>\<open>wp_001 - wp_002 - wp_003\<close> with a display box at one end, a
  cabinet at the other, and a direct edge between the two fixtures.
\<close>

definition chain_graph :: WayfindingGraph where
  "chain_graph = build_graph
     [AddNode ''wp_001'' WAYPOINT, AddNode ''wp_002'' WAYPOINT, AddNode ''wp_003'' WAYPOINT,
      AddNode ''di_box_1'' DI_BOX, AddNode ''cabinet_1'' CABINET,
      AddEdge ''wp_001'' ''wp_002'' True, AddEdge ''wp_002'' ''wp_003'' True,
      AddEdge ''di_box_1'' ''wp_001'' True, AddEdge ''cabinet_1'' ''wp_003'' True,
      AddEdge ''di_box_1'' ''cabinet_1'' True]
     new_WayfindingGraph"

text \<open>Two fixtures joined through a node of type \<^verbatim>\<open>unknown\<close>, and directly.\<close>

definition bridge_graph :: WayfindingGraph where
  "bridge_graph = build_graph
     [AddNode ''di_box_1'' DI_BOX, AddNode ''hall'' UNKNOWN, AddNode ''cabinet_1'' CABINET,
      AddEdge ''di_box_1'' ''hall'' True, AddEdge ''hall'' ''cabinet_1'' True,
      AddEdge ''di_box_1'' ''cabinet_1'' True]
     new_WayfindingGraph"

text \<open>Two fixtures with three waypoints between them, each a route of its own.\<close>

definition routes_graph :: WayfindingGraph where
  "routes_graph = build_graph
     [AddNode ''start'' DI_BOX, AddNode ''end'' CABINET,
      AddNode ''wp1'' WAYPOINT, AddNode ''wp2'' WAYPOINT, AddNode ''wp3'' WAYPOINT,
      AddEdge ''start'' ''wp1'' True, AddEdge ''wp1'' ''end'' True,
      AddEdge ''start'' ''wp2'' True, AddEdge ''wp2'' ''end'' True,
      AddEdge ''start'' ''wp3'' True, AddEdge ''wp3'' ''end'' True]
     new_WayfindingGraph"

text \<open>One edge added in both directions and one added in a single direction.\<close>

definition mixed_graph :: WayfindingGraph where
  "mixed_graph = build_graph
     [AddNode ''a'' WAYPOINT, AddNode ''b'' WAYPOINT, AddNode ''c'' WAYPOINT,
      AddEdge ''a'' ''b'' True, AddEdge ''b'' ''c'' False]
     new_WayfindingGraph"

section \<open>Properties\<close>

subsection \<open>Auxiliary facts\<close>

lemmas node_type_defs = WAYPOINT_def DI_BOX_def CABINET_def FOSSIL_def UNKNOWN_def

lemma is_walk_nonempty: "is_walk g opts p \<Longrightarrow> p \<noteq> []"
  by (cases p) auto

lemma is_walk_snoc_iff:
  "p \<noteq> [] \<Longrightarrow> is_walk g opts (p @ [n]) \<longleftrightarrow> is_walk g opts p \<and> hop g opts (last p) n"
  by (induction g opts p rule: is_walk.induct) auto

lemma walk_from_snoc_iff:
  "p \<noteq> [] \<Longrightarrow> walk_from g opts s (p @ [n]) \<longleftrightarrow> walk_from g opts s p \<and> hop g opts (last p) n"
  by (auto simp: walk_from_def is_walk_snoc_iff)

lemma walk_from_nonempty: "walk_from g opts s p \<Longrightarrow> p \<noteq> []"
  by (auto simp: walk_from_def is_walk_nonempty)

lemma is_walk_nth:
  "is_walk g opts p \<Longrightarrow> Suc i < length p \<Longrightarrow> hop g opts (p ! i) (p ! Suc i)"
proof (induction g opts p arbitrary: i rule: is_walk.induct)
  case (3 g opts x y r)
  then show ?case by (cases i) auto
qed auto

lemma is_walk_tl_not_excluded:
  "is_walk g opts p \<Longrightarrow> x \<in> set (tl p) \<Longrightarrow> x \<notin> excludeNodes opts"
  by (induction g opts p rule: is_walk.induct) (auto simp: hop_def)

lemma walk_from_single: "walk_from g opts s w \<Longrightarrow> length w \<le> 1 \<Longrightarrow> last w = s"
  by (cases w) (auto simp: walk_from_def)

lemma explore_inv_skip:
  assumes "explore_inv g opts s t cur (n # rest) queue visited"
    and "n \<in> visited \<or> \<not> hop g opts (last cur) n"
  shows "explore_inv g opts s t cur rest queue visited"
  using assms unfolding explore_inv_def by auto

lemma explore_inv_push:
  assumes inv: "explore_inv g opts s t cur (n # rest) queue visited"
    and n: "n \<notin> visited" "hop g opts (last cur) n" "n \<noteq> t"
  shows "explore_inv g opts s t cur rest (queue @ [cur @ [n]]) (insert n visited)"
proof -
  have cur: "cur \<noteq> []" using inv walk_from_nonempty unfolding explore_inv_def by blast
  have w: "walk_from g opts s (cur @ [n])"
    using inv n cur by (simp add: walk_from_snoc_iff explore_inv_def)
  have short: "\<forall>w. walk_from g opts s w \<and> last w = n \<longrightarrow> Suc (length cur) \<le> length w"
    using inv n(1) unfolding explore_inv_def by blast
  have srt: "sorted (map length (queue @ [cur @ [n]]))"
    using inv unfolding explore_inv_def by (auto simp: sorted_append)
  show ?thesis
    unfolding explore_inv_def
    apply (intro conjI)
    subgoal using inv unfolding explore_inv_def by blast
    subgoal using inv unfolding explore_inv_def by blast
    subgoal using inv n unfolding explore_inv_def by auto
    subgoal using inv unfolding explore_inv_def by auto
    subgoal using inv w unfolding explore_inv_def by auto
    subgoal using inv unfolding explore_inv_def by auto
    subgoal using inv unfolding explore_inv_def by auto
    subgoal using inv short unfolding explore_inv_def by auto
    subgoal using srt .
    subgoal using inv unfolding explore_inv_def by auto
    subgoal using inv unfolding explore_inv_def by auto
    done
qed

lemma explore_inv_found:
  assumes inv: "explore_inv g opts s t cur (t # rest) queue visited"
    and n: "hop g opts (last cur) t"
  shows "walk_from g opts s (cur @ [t]) \<and>
         (\<forall>w. walk_from g opts s w \<and> last w = t \<longrightarrow> length (cur @ [t]) \<le> length w)"
proof -
  have cur: "cur \<noteq> []" using inv walk_from_nonempty unfolding explore_inv_def by blast
  have w: "walk_from g opts s (cur @ [t])"
    using inv n cur by (simp add: walk_from_snoc_iff explore_inv_def)
  have "\<forall>w. walk_from g opts s w \<and> last w = t \<longrightarrow> Suc (length cur) \<le> length w"
    using inv unfolding explore_inv_def by blast
  with w show ?thesis by simp
qed

lemma explore_inv_run:
  assumes "explore_inv g opts s t cur rest queue visited"
  shows "case explore g opts t cur (getNodeType g (last cur)) rest queue visited of
           Inl p \<Rightarrow> walk_from g opts s p \<and> last p = t \<and>
                    (\<forall>w. walk_from g opts s w \<and> last w = t \<longrightarrow> length p \<le> length w)
         | Inr (queue', visited') \<Rightarrow> explore_inv g opts s t cur [] queue' visited'"
  using assms
proof (induction rest arbitrary: queue visited)
  case Nil
  then show ?case by simp
next
  case (Cons n rest)
  have nb: "n \<in> set (getNeighbors g (last cur))"
    using Cons.prems by (simp add: explore_inv_def)
  show ?case
  proof (cases "n \<in> visited \<or> \<not> hop g opts (last cur) n")
    case True
    then have "explore g opts t cur (getNodeType g (last cur)) (n # rest) queue visited
               = explore g opts t cur (getNodeType g (last cur)) rest queue visited"
      using nb by (auto simp: hop_def)
    moreover have "explore_inv g opts s t cur rest queue visited"
      using explore_inv_skip [OF Cons.prems True] .
    ultimately show ?thesis using Cons.IH by simp
  next
    case False
    then have nv: "n \<notin> visited" and h: "hop g opts (last cur) n" by auto
    show ?thesis
    proof (cases "n = t")
      case True
      then have "explore g opts t cur (getNodeType g (last cur)) (n # rest) queue visited
                 = Inl (cur @ [t])"
        using nv h by (simp add: hop_def)
      then show ?thesis
        using explore_inv_found [of g opts s t cur rest queue visited] Cons.prems h True
        by simp
    next
      case False
      then have "explore g opts t cur (getNodeType g (last cur)) (n # rest) queue visited
                 = explore g opts t cur (getNodeType g (last cur)) rest
                     (queue @ [cur @ [n]]) (insert n visited)"
        using nv h by (simp add: hop_def)
      moreover have "explore_inv g opts s t cur rest (queue @ [cur @ [n]]) (insert n visited)"
        using explore_inv_push [OF Cons.prems nv h False] .
      ultimately show ?thesis using Cons.IH by simp
    qed
  qed
qed

lemma bfs_inv_explore_inv:
  assumes "bfs_inv g opts s t (cur # queue) visited"
  shows "explore_inv g opts s t cur (getNeighbors g (last cur)) queue visited"
  using assms unfolding bfs_inv_def explore_inv_def
  by (auto simp: hop_def)

lemma walk_from_butlast:
  assumes "walk_from g opts s w" "2 \<le> length w"
  shows "walk_from g opts s (butlast w) \<and> hop g opts (last (butlast w)) (last w)"
proof -
  have "w = butlast w @ [last w]" "butlast w \<noteq> []"
    using assms(2) by (cases w; auto)+
  then show ?thesis
    using assms(1) walk_from_snoc_iff [of "butlast w" g opts s "last w"] by simp
qed

lemma explore_inv_bfs_inv:
  assumes inv: "explore_inv g opts s t cur [] queue visited"
  shows "bfs_inv g opts s t queue visited"
proof -
  have cur: "cur \<noteq> []" using inv walk_from_nonempty unfolding explore_inv_def by blast
  have closed: "\<forall>u\<in>visited. (\<forall>q\<in>set queue. last q \<noteq> u) \<longrightarrow>
                  (\<forall>v. hop g opts u v \<longrightarrow> v \<in> visited)"
    using inv unfolding explore_inv_def by (metis empty_iff empty_set)
  have level: "Suc (length (hd queue)) \<le> length w"
    if ne: "queue \<noteq> []" and w: "walk_from g opts s w" "last w \<notin> visited" for w
  proof -
    have old: "Suc (length cur) \<le> length w"
      using inv w unfolding explore_inv_def by blast
    have hdq: "hd queue \<in> set queue" using ne by simp
    have bounds: "length cur \<le> length (hd queue)" "length (hd queue) \<le> Suc (length cur)"
      using inv hdq unfolding explore_inv_def by auto
    show ?thesis
    proof (cases "length (hd queue) = length cur")
      case True
      then show ?thesis using old by simp
    next
      case False
      then have lvl: "length (hd queue) = Suc (length cur)" using bounds by simp
      have all: "\<forall>q\<in>set queue. Suc (length cur) \<le> length q"
      proof
        fix q assume "q \<in> set queue"
        moreover have "sorted (map length queue)" using inv unfolding explore_inv_def by blast
        ultimately have "length (hd queue) \<le> length q"
          using ne by (cases queue) auto
        then show "Suc (length cur) \<le> length q" using lvl by simp
      qed
      show ?thesis
      proof (rule ccontr)
        assume "\<not> Suc (length (hd queue)) \<le> length w"
        then have len: "length w = Suc (length cur)" using old lvl by simp
        then have "2 \<le> length w" using cur by (cases cur) auto
        from walk_from_butlast [OF w(1) this]
        have pre: "walk_from g opts s (butlast w)"
          and h: "hop g opts (last (butlast w)) (last w)" by auto
        have plen: "length (butlast w) = length cur" using len by simp
        have vis: "last (butlast w) \<in> visited"
        proof (rule ccontr)
          assume "last (butlast w) \<notin> visited"
          then have "Suc (length cur) \<le> length (butlast w)"
            using inv pre unfolding explore_inv_def by blast
          then show False using plen by simp
        qed
        show False
        proof (cases "\<forall>q\<in>set queue. last q \<noteq> last (butlast w)")
          case True
          then have "last w \<in> visited" using closed vis h by blast
          then show False using w(2) by simp
        next
          case False
          then obtain q where q: "q \<in> set queue" "last q = last (butlast w)" by auto
          then have "length q \<le> length (butlast w)"
            using inv pre unfolding explore_inv_def by metis
          moreover have "Suc (length cur) \<le> length q" using all q(1) by simp
          ultimately show False using plen by simp
        qed
      qed
    qed
  qed
  have ub: "\<forall>q\<in>set queue. length q \<le> Suc (length (hd queue))" if ne: "queue \<noteq> []"
  proof
    fix q assume q: "q \<in> set queue"
    have "hd queue \<in> set queue" using ne by simp
    then have "length cur \<le> length (hd queue)" using inv unfolding explore_inv_def by auto
    moreover have "length q \<le> Suc (length cur)" using inv q unfolding explore_inv_def by auto
    ultimately show "length q \<le> Suc (length (hd queue))" by simp
  qed
  show ?thesis
    unfolding bfs_inv_def
    apply (intro conjI)
    subgoal using inv unfolding explore_inv_def by blast
    subgoal using inv unfolding explore_inv_def by blast
    subgoal using closed .
    subgoal using inv unfolding explore_inv_def by blast
    subgoal using inv unfolding explore_inv_def by blast
    subgoal using ub level by blast
    done
qed

lemma bfs_inv_run:
  assumes "bfs_inv g opts s t queue visited"
    and "bfs g opts t n queue visited = Some p"
  shows "walk_from g opts s p \<and> last p = t \<and>
         (\<forall>w. walk_from g opts s w \<and> last w = t \<longrightarrow> length p \<le> length w)"
  using assms
proof (induction g opts t n queue visited rule: bfs.induct)
  case (1 g opts targetId queue visited)
  then show ?case by simp
next
  case (2 g opts targetId remaining visited)
  then show ?case by simp
next
  case (3 g opts targetId remaining currentPath queue visited)
  have ne: "currentPath \<noteq> []"
    using "3.prems"(1) walk_from_nonempty unfolding bfs_inv_def by fastforce
  have einv: "explore_inv g opts s targetId currentPath
                (getNeighbors g (last currentPath)) queue visited"
    using bfs_inv_explore_inv [OF "3.prems"(1)] .
  note run = explore_inv_run [OF einv]
  show ?case
  proof (cases "explore g opts targetId currentPath (getNodeType g (last currentPath))
                  (getNeighbors g (last currentPath)) queue visited")
    case (Inl newPath)
    then have "p = newPath" using "3.prems"(2) ne by (simp add: Let_def)
    then show ?thesis using run Inl by simp
  next
    case (Inr st)
    obtain queue' visited' where st: "st = (queue', visited')" by (cases st)
    have "explore_inv g opts s targetId currentPath [] queue' visited'"
      using run Inr st by simp
    then have inv': "bfs_inv g opts s targetId queue' visited'"
      by (rule explore_inv_bfs_inv)
    have "bfs g opts targetId remaining queue' visited' = Some p"
      using "3.prems"(2) ne Inr st by (simp add: Let_def)
    then show ?thesis
      using "3.IH"(2) [OF ne refl refl Inr st [symmetric] inv'] by simp
  qed
qed

lemma bfs_inv_init:
  assumes "s \<noteq> t"
  shows "bfs_inv g opts s t [[s]] {s}"
proof -
  have a: "Suc (length [s]) \<le> length w" if "walk_from g opts s w" "last w \<notin> {s}" for w
  proof (rule ccontr)
    assume "\<not> Suc (length [s]) \<le> length w"
    then have "length w \<le> 1" by simp
    then have "last w = s" using that(1) by (rule walk_from_single [rotated])
    then show False using that(2) by simp
  qed
  have b: "length [s] \<le> length w" if "walk_from g opts s w" for w
    using walk_from_nonempty [OF that] by (cases w) auto
  have c: "walk_from g opts s [s]" by (simp add: walk_from_def)
  show ?thesis
    unfolding bfs_inv_def using assms a b c by auto
qed

lemma findPath_walk:
  assumes "findPath g s t opts = Inr (Some p)"
  shows "walk_from g opts s p \<and> last p = t \<and>
         (\<forall>w. walk_from g opts s w \<and> last w = t \<longrightarrow> length p \<le> length w)"
proof (cases "s = t")
  case True
  then have p: "p = [s]" using assms by (auto simp: findPath_def split: if_splits)
  have "length [s] \<le> length w" if "walk_from g opts s w" for w
    using walk_from_nonempty [OF that] by (cases w) auto
  then show ?thesis using p True by (simp add: walk_from_def)
next
  case False
  then have "bfs g opts t (nat (maxDepth opts)) [[s]] {s} = Some p"
    using assms by (auto simp: findPath_def split: if_splits)
  then show ?thesis using bfs_inv_run [OF bfs_inv_init [OF False]] by blast
qed

lemma path_nodes:
  assumes "p \<noteq> []"
  shows "set p \<subseteq> {hd p, last p} \<union> set (butlast (tl p))"
proof (cases p)
  case Nil
  then show ?thesis using assms by simp
next
  case (Cons x r)
  show ?thesis
  proof (cases "r = []")
    case True
    then show ?thesis using Cons by simp
  next
    case False
    have "set (butlast r @ [last r]) = insert (last r) (set (butlast r))" by simp
    then have "set r = insert (last r) (set (butlast r))" using False by simp
    then show ?thesis using Cons False by simp
  qed
qed

lemma multiple_paths_loop_disjoint:
  assumes "multiple_paths_loop g s t opts n paths visited = Inr ps"
    and "\<forall>p\<in>set paths. set p \<subseteq> {s, t} \<union> visited"
    and "\<forall>i j. i < j \<and> j < length paths \<longrightarrow> set (paths ! i) \<inter> set (paths ! j) \<subseteq> {s, t}"
  shows "\<forall>i j. i < j \<and> j < length ps \<longrightarrow> set (ps ! i) \<inter> set (ps ! j) \<subseteq> {s, t}"
  using assms
proof (induction n arbitrary: paths visited)
  case 0
  then show ?case by simp
next
  case (Suc n)
  show ?case
  proof (cases "findPath g s t (opts\<lparr>excludeNodes := visited\<rparr>)")
    case (Inl e)
    then show ?thesis using Suc.prems(1) by simp
  next
    case (Inr r)
    show ?thesis
    proof (cases r)
      case None
      then show ?thesis using Suc.prems Inr by simp
    next
      case (Some p)
      let ?o = "opts\<lparr>excludeNodes := visited\<rparr>"
      let ?v = "visited \<union> set (butlast (tl p))"
      have fp: "findPath g s t ?o = Inr (Some p)" using Inr Some by simp
      from findPath_walk [OF fp]
      have w: "walk_from g ?o s p" and l: "last p = t" by auto
      have ne: "p \<noteq> []" using w by (rule walk_from_nonempty)
      have hd: "hd p = s" using w by (simp add: walk_from_def)
      have fresh: "x \<notin> visited" if "x \<in> set (tl p)" for x
        using is_walk_tl_not_excluded [of g ?o p x] w that by (simp add: walk_from_def)
      have sub: "set p \<subseteq> {s, t} \<union> ?v"
        using path_nodes [OF ne] hd l by auto
      have run: "multiple_paths_loop g s t opts n (paths @ [p]) ?v = Inr ps"
        using Suc.prems(1) fp by simp
      have inv1: "\<forall>q\<in>set (paths @ [p]). set q \<subseteq> {s, t} \<union> ?v"
        using Suc.prems(2) sub by auto
      have inv2: "\<forall>i j. i < j \<and> j < length (paths @ [p]) \<longrightarrow>
                    set ((paths @ [p]) ! i) \<inter> set ((paths @ [p]) ! j) \<subseteq> {s, t}"
      proof (intro allI impI)
        fix i j assume ij: "i < j \<and> j < length (paths @ [p])"
        show "set ((paths @ [p]) ! i) \<inter> set ((paths @ [p]) ! j) \<subseteq> {s, t}"
        proof (cases "j < length paths")
          case True
          then show ?thesis using ij Suc.prems(3) by (simp add: nth_append)
        next
          case False
          then have j: "j = length paths" using ij by simp
          have i: "i < length paths" using ij j by simp
          have old: "set (paths ! i) \<subseteq> {s, t} \<union> visited"
            using Suc.prems(2) i by simp
          have "set (paths ! i) \<inter> set p \<subseteq> {s, t}"
          proof
            fix x assume x: "x \<in> set (paths ! i) \<inter> set p"
            show "x \<in> {s, t}"
            proof (rule ccontr)
              assume n: "x \<notin> {s, t}"
              then have "x \<in> visited" using x old by auto
              moreover have "x \<in> set (tl p)"
                using x n hd ne by (cases p) auto
              ultimately show False using fresh by simp
            qed
          qed
          then show ?thesis using i j by (simp add: nth_append)
        qed
      qed
      show ?thesis using Suc.IH [OF run inv1 inv2] .
    qed
  qed
qed

lemma explore_exclude_source:
  assumes "s \<in> visited"
    and "allowDirectFixtureConnections o1 = allowDirectFixtureConnections o2"
    and "excludeNodes o1 = insert s (excludeNodes o2)"
  shows "explore g o1 t cur ty rest queue visited = explore g o2 t cur ty rest queue visited"
  using assms(1)
proof (induction rest arbitrary: queue visited)
  case Nil
  then show ?case by simp
next
  case (Cons n rest)
  then show ?case using assms(2,3) by (auto simp: Let_def)
qed

lemma explore_visited_mono:
  "explore g opts t cur ty rest queue visited = Inr (queue', visited') \<Longrightarrow> visited \<subseteq> visited'"
proof (induction rest arbitrary: queue visited)
  case Nil
  then show ?case by simp
next
  case (Cons n rest)
  then show ?case by (fastforce simp: Let_def split: if_splits)
qed

lemma bfs_exclude_source:
  assumes "allowDirectFixtureConnections o1 = allowDirectFixtureConnections o2"
    and "excludeNodes o1 = insert s (excludeNodes o2)"
  shows "s \<in> visited \<Longrightarrow> bfs g o1 t n queue visited = bfs g o2 t n queue visited"
proof (induction n arbitrary: queue visited)
  case 0
  then show ?case by simp
next
  case (Suc n)
  show ?case
  proof (cases queue)
    case Nil
    then show ?thesis by simp
  next
    case (Cons cur rest)
    show ?thesis
    proof (cases "cur = []")
      case True
      then show ?thesis using Cons Suc by simp
    next
      case False
      let ?e = "explore g o2 t cur (getNodeType g (last cur)) (getNeighbors g (last cur)) rest visited"
      have eq: "explore g o1 t cur (getNodeType g (last cur)) (getNeighbors g (last cur)) rest visited = ?e"
        using explore_exclude_source [OF Suc.prems assms] .
      show ?thesis
      proof (cases ?e)
        case (Inl newPath)
        then show ?thesis using Cons False eq by (simp add: Let_def)
      next
        case (Inr st)
        obtain q' v' where st: "st = (q', v')" by (cases st)
        have "s \<in> v'" using explore_visited_mono Inr st Suc.prems by blast
        then have "bfs g o1 t n q' v' = bfs g o2 t n q' v'" by (rule Suc.IH)
        then show ?thesis using Cons False eq Inr st by (simp add: Let_def)
      qed
    qed
  qed
qed

lemma map_of_map_set: "map_of (map_set k v al) k' = (if k' = k then Some v else map_of al k')"
  by (induction al) auto

lemma canVisitNeighbor_from_fixture:
  "isFixtureType c \<Longrightarrow>
   canVisitNeighbor c n flag \<longleftrightarrow> n = WAYPOINT \<or> (flag \<and> n = UNKNOWN)"
  by (auto simp: canVisitNeighbor_def isFixtureType_def node_type_defs)

lemma not_fixture_waypoint_unknown: "\<not> isFixtureType WAYPOINT" "\<not> isFixtureType UNKNOWN"
  by (simp_all add: isFixtureType_def node_type_defs)

lemma array2_iff: "isArray c \<and> js_length c = Some 2 \<longleftrightarrow> (\<exists>x y. c = JArr [x, y])"
proof (cases c)
  case (JArr vs)
  show ?thesis
  proof
    assume "isArray c \<and> js_length c = Some 2"
    then have "length vs = 2" using JArr by simp
    then obtain x y where "vs = [x, y]"
      by (cases vs; cases "tl vs"; auto)
    then show "\<exists>x y. c = JArr [x, y]" using JArr by simp
  next
    assume "\<exists>x y. c = JArr [x, y]"
    then show "isArray c \<and> js_length c = Some 2" by auto
  qed
qed auto

subsection \<open>Routing between fixtures\<close>

text \<open>
  Claim C1, as amended. Between two distinct nodes of fixture type a returned path never
  is the direct hop: it has a node strictly between the endpoints, and the node after the
  source has the type \<^verbatim>\<open>waypoint\<close>, or the type \<^verbatim>\<open>unknown\<close>, which the routing
  predicate lets pass only if \<^verbatim>\<open>allowDirectFixtureConnections\<close> is set. With the flag
  not set the path contains a waypoint strictly between its endpoints, for every
  \<^verbatim>\<open>maxDepth\<close> and \<^verbatim>\<open>excludeNodes\<close> and whether or not the graph has the edge
  between the two fixtures.
\<close>

theorem fixture_route_interior:
  assumes "isFixtureType (getNodeType g a)" and "isFixtureType (getNodeType g b)"
    and "a \<noteq> b" and "findPath g a b opts = Inr (Some path)"
  shows "3 \<le> length path \<and>
         (getNodeType g (path ! 1) = WAYPOINT \<or>
          allowDirectFixtureConnections opts \<and> getNodeType g (path ! 1) = UNKNOWN) \<and>
         (\<not> allowDirectFixtureConnections opts \<longrightarrow> waypoint_between g path)"
proof -
  from findPath_walk [OF assms(4)]
  have w: "is_walk g opts path" and h: "hd path = a" and l: "last path = b"
    by (auto simp: walk_from_def)
  obtain r where p: "path = a # r" using w h by (cases path) auto
  have "r \<noteq> []" using p l assms(3) by auto
  then obtain x r' where r: "r = x # r'" by (cases r) auto
  have "hop g opts a x" using w p r by simp
  then have "canVisitNeighbor (getNodeType g a) (getNodeType g x)
               (allowDirectFixtureConnections opts)"
    by (simp add: hop_def)
  then have x: "getNodeType g x = WAYPOINT \<or>
                allowDirectFixtureConnections opts \<and> getNodeType g x = UNKNOWN"
    using canVisitNeighbor_from_fixture [OF assms(1)] by simp
  then have "\<not> isFixtureType (getNodeType g x)"
    using not_fixture_waypoint_unknown by auto
  then have "x \<noteq> b" using assms(2) by auto
  then have r': "r' \<noteq> []" using p r l by auto
  have "getNodeType g x \<in> set (map (getNodeType g) (butlast (tl path)))"
    using p r r' by simp
  then show ?thesis
    using p r r' x by (cases r') (auto simp: waypoint_between_def)
qed

theorem fixture_route_interior_witness:
  "isFixtureType (getNodeType chain_graph ''di_box_1'') \<and>
   isFixtureType (getNodeType chain_graph ''cabinet_1'') \<and>
   findPath chain_graph ''di_box_1'' ''cabinet_1'' default_options
     = Inr (Some [''di_box_1'', ''wp_001'', ''wp_002'', ''wp_003'', ''cabinet_1'']) \<and>
   waypoint_between chain_graph [''di_box_1'', ''wp_001'', ''wp_002'', ''wp_003'', ''cabinet_1'']"
proof -
  have f: "isFixtureType (getNodeType chain_graph ''di_box_1'')"
    "isFixtureType (getNodeType chain_graph ''cabinet_1'')"
    by code_simp+
  have e: "findPath chain_graph ''di_box_1'' ''cabinet_1'' default_options
             = Inr (Some [''di_box_1'', ''wp_001'', ''wp_002'', ''wp_003'', ''cabinet_1''])"
    by code_simp
  have d: "''di_box_1'' \<noteq> ''cabinet_1''" by simp
  have o: "\<not> allowDirectFixtureConnections default_options"
    by (simp add: default_options_def)
  from fixture_route_interior [OF f d e] o f e show ?thesis by blast
qed

theorem fixture_route_unknown_bridge_counterexample:
  "isFixtureType (getNodeType bridge_graph ''di_box_1'') \<and>
   isFixtureType (getNodeType bridge_graph ''cabinet_1'') \<and>
   findPath bridge_graph ''di_box_1'' ''cabinet_1''
     (default_options\<lparr>allowDirectFixtureConnections := True\<rparr>)
     = Inr (Some [''di_box_1'', ''hall'', ''cabinet_1'']) \<and>
   \<not> waypoint_between bridge_graph [''di_box_1'', ''hall'', ''cabinet_1'']"
  by code_simp

subsection \<open>The routing predicate as a table\<close>

text \<open>
  Claim C2. On the type tags of \<^verbatim>\<open>NODE_TYPES\<close> the routing predicate is the decision
  table: waypoint to waypoint, fixture to waypoint and waypoint to fixture are allowed;
  fixture to fixture is denied whatever the flag; a pair with \<^verbatim>\<open>unknown\<close> on either
  side yields the flag. These cases cover every pair of the five tags. The last conjunct
  is the table's final line for tags outside \<^verbatim>\<open>NODE_TYPES\<close>: with no
  \<^verbatim>\<open>unknown\<close> in the pair the answer is no.
\<close>

theorem canVisitNeighbor_decision_table:
  "canVisitNeighbor WAYPOINT WAYPOINT flag \<and>
   (\<forall>f\<in>set [DI_BOX, CABINET, FOSSIL].
      canVisitNeighbor f WAYPOINT flag \<and> canVisitNeighbor WAYPOINT f flag \<and>
      (\<forall>f'\<in>set [DI_BOX, CABINET, FOSSIL]. \<not> canVisitNeighbor f f' flag)) \<and>
   (\<forall>ty\<in>set NODE_TYPES.
      canVisitNeighbor UNKNOWN ty flag = flag \<and> canVisitNeighbor ty UNKNOWN flag = flag) \<and>
   (\<forall>c n. (c \<notin> set NODE_TYPES \<and> n \<noteq> UNKNOWN) \<or> (n \<notin> set NODE_TYPES \<and> c \<noteq> UNKNOWN) \<longrightarrow>
      \<not> canVisitNeighbor c n flag)"
  by (simp add: canVisitNeighbor_def isFixtureType_def NODE_TYPES_def node_type_defs)

theorem canVisitNeighbor_decision_table_witness:
  "\<not> canVisitNeighbor DI_BOX CABINET True \<and> canVisitNeighbor FOSSIL WAYPOINT False \<and>
   canVisitNeighbor UNKNOWN DI_BOX True \<and> \<not> canVisitNeighbor WAYPOINT UNKNOWN False \<and>
   \<not> canVisitNeighbor ''stairs'' WAYPOINT True"
proof -
  have "''stairs'' \<notin> set NODE_TYPES" "WAYPOINT \<noteq> UNKNOWN"
    by (simp_all add: NODE_TYPES_def node_type_defs)
  then show ?thesis
    using canVisitNeighbor_decision_table [of True] canVisitNeighbor_decision_table [of False]
    by (simp add: NODE_TYPES_def)
qed

subsection \<open>Paths returned by the search\<close>

text \<open>
  Claim C3. A path returned by \<^verbatim>\<open>findPath\<close> starts at the source and ends at the
  target; each node after the first is a neighbour of the node before it, and each such
  pair, the last hop onto the target included, satisfies the routing predicate on the
  types of the two nodes with the flag of the call.
\<close>

theorem findPath_valid_walk:
  assumes "findPath g sourceId targetId opts = Inr (Some path)"
  shows "path \<noteq> [] \<and> hd path = sourceId \<and> last path = targetId \<and>
         (\<forall>i. Suc i < length path \<longrightarrow>
            path ! Suc i \<in> set (getNeighbors g (path ! i)) \<and>
            canVisitNeighbor (getNodeType g (path ! i)) (getNodeType g (path ! Suc i))
              (allowDirectFixtureConnections opts))"
proof -
  from findPath_walk [OF assms]
  have w: "walk_from g opts sourceId path" and l: "last path = targetId" by auto
  have "hop g opts (path ! i) (path ! Suc i)" if "Suc i < length path" for i
    using w that is_walk_nth by (simp add: walk_from_def)
  then show ?thesis
    using w l walk_from_nonempty [OF w] by (simp add: walk_from_def hop_def)
qed

theorem findPath_valid_walk_witness:
  "findPath chain_graph ''di_box_1'' ''cabinet_1''
     (default_options\<lparr>allowDirectFixtureConnections := True\<rparr>)
     = Inr (Some [''di_box_1'', ''wp_001'', ''wp_002'', ''wp_003'', ''cabinet_1'']) \<and>
   ''cabinet_1'' \<in> set (getNeighbors chain_graph ''wp_003'') \<and>
   canVisitNeighbor (getNodeType chain_graph ''wp_003'') (getNodeType chain_graph ''cabinet_1'')
     True"
proof -
  let ?p = "[''di_box_1'', ''wp_001'', ''wp_002'', ''wp_003'', ''cabinet_1'']"
  have e: "findPath chain_graph ''di_box_1'' ''cabinet_1''
             (default_options\<lparr>allowDirectFixtureConnections := True\<rparr>) = Inr (Some ?p)"
    by code_simp
  from findPath_valid_walk [OF e]
  have "Suc 3 < length ?p \<longrightarrow>
          ?p ! Suc 3 \<in> set (getNeighbors chain_graph (?p ! 3)) \<and>
          canVisitNeighbor (getNodeType chain_graph (?p ! 3)) (getNodeType chain_graph (?p ! Suc 3))
            (allowDirectFixtureConnections (default_options\<lparr>allowDirectFixtureConnections := True\<rparr>))"
    by blast
  then show ?thesis using e by simp
qed

text \<open>
  Claim C4. The path returned by \<^verbatim>\<open>findPath\<close> has no more nodes than any walk from
  the source to the target whose steps are edges of the graph allowed by the routing
  predicate and lead to nodes outside \<^verbatim>\<open>excludeNodes\<close>. This holds for every
  \<^verbatim>\<open>maxDepth\<close> with which a path is returned.
\<close>

theorem findPath_minimal:
  assumes "findPath g a b opts = Inr (Some path)"
    and "is_walk g opts w" and "hd w = a" and "last w = b"
  shows "length path \<le> length w"
  using findPath_walk [OF assms(1)] assms(2-4) by (simp add: walk_from_def)

theorem findPath_minimal_witness:
  "findPath chain_graph ''di_box_1'' ''cabinet_1'' default_options
     = Inr (Some [''di_box_1'', ''wp_001'', ''wp_002'', ''wp_003'', ''cabinet_1'']) \<and>
   is_walk chain_graph default_options
     [''di_box_1'', ''wp_001'', ''wp_002'', ''wp_001'', ''wp_002'', ''wp_003'', ''cabinet_1''] \<and>
   length [''di_box_1'', ''wp_001'', ''wp_002'', ''wp_003'', ''cabinet_1'']
     \<le> length [''di_box_1'', ''wp_001'', ''wp_002'', ''wp_001'', ''wp_002'', ''wp_003'',
                 ''cabinet_1'']"
proof -
  let ?w = "[''di_box_1'', ''wp_001'', ''wp_002'', ''wp_001'', ''wp_002'', ''wp_003'', ''cabinet_1'']"
  have e: "findPath chain_graph ''di_box_1'' ''cabinet_1'' default_options
             = Inr (Some [''di_box_1'', ''wp_001'', ''wp_002'', ''wp_003'', ''cabinet_1''])"
    by code_simp
  have w: "is_walk chain_graph default_options ?w"
    by code_simp
  have "hd ?w = ''di_box_1''" "last ?w = ''cabinet_1''" by simp_all
  from findPath_minimal [OF e w this] e w show ?thesis by blast
qed

subsection \<open>Errors of the search\<close>

text \<open>
  Claim C5. \<^verbatim>\<open>findPath\<close> raises exactly when the source or the target is not a node
  of the graph; what it raises then is a \<^verbatim>\<open>PathfindingError\<close> with the code
  \<^verbatim>\<open>NODE_NOT_FOUND\<close> whose message names the missing id (the source first). When
  both are nodes it returns, a path or \<^verbatim>\<open>null\<close>.
\<close>

theorem findPath_NodeNotFound_iff:
  "((\<exists>e. findPath g sourceId targetId opts = Inl e) \<longleftrightarrow>
      \<not> hasNode g sourceId \<or> \<not> hasNode g targetId) \<and>
   (\<not> hasNode g sourceId \<longrightarrow>
      findPath g sourceId targetId opts = Inl (source_not_found_error sourceId)) \<and>
   (hasNode g sourceId \<and> \<not> hasNode g targetId \<longrightarrow>
      findPath g sourceId targetId opts = Inl (target_not_found_error targetId)) \<and>
   (hasNode g sourceId \<and> hasNode g targetId \<longrightarrow>
      (\<exists>path. findPath g sourceId targetId opts = Inr (Some path)) \<or>
      findPath g sourceId targetId opts = Inr None) \<and>
   code (source_not_found_error sourceId) = NODE_NOT_FOUND \<and>
   code (target_not_found_error targetId) = NODE_NOT_FOUND"
  by (cases "bfs g opts targetId (nat (maxDepth opts)) [[sourceId]] {sourceId}")
     (auto simp: findPath_def source_not_found_error_def target_not_found_error_def)

theorem findPath_NodeNotFound_iff_witness:
  "\<not> hasNode chain_graph ''ghost'' \<and> hasNode chain_graph ''wp_001'' \<and>
   findPath chain_graph ''ghost'' ''wp_001'' default_options
     = Inl (source_not_found_error ''ghost'') \<and>
   findPath chain_graph ''wp_001'' ''ghost'' default_options
     = Inl (target_not_found_error ''ghost'') \<and>
   (\<exists>r. findPath chain_graph ''wp_001'' ''wp_003'' default_options = Inr r)"
proof -
  have h: "\<not> hasNode chain_graph ''ghost''" "hasNode chain_graph ''wp_001''"
    "hasNode chain_graph ''wp_003''"
    by code_simp+
  show ?thesis
    using h findPath_NodeNotFound_iff [of chain_graph "''ghost''" "''wp_001''" default_options]
      findPath_NodeNotFound_iff [of chain_graph "''wp_001''" "''ghost''" default_options]
      findPath_NodeNotFound_iff [of chain_graph "''wp_001''" "''wp_003''" default_options]
    by blast
qed

subsection \<open>Coordinates of a node\<close>

text \<open>
  Claim C6, as amended. For an id that is not blank, \<^verbatim>\<open>addNode\<close> raises
  \<^verbatim>\<open>INVALID_COORDINATES\<close> for every truthy coordinates value that is not an array of
  exactly two elements; for an array of two elements, numbers or not, it returns and
  \<^verbatim>\<open>getNodeCoordinates\<close> yields that array; a falsy value (\<^verbatim>\<open>null\<close>,
  \<^verbatim>\<open>undefined\<close>, \<^verbatim>\<open>0\<close>, \<^verbatim>\<open>NaN\<close>, \<^verbatim>\<open>false\<close>, the empty string) counts as no
  coordinates: the call returns and stores none.
\<close>

theorem addNode_coordinates_shape:
  assumes "trim nodeId \<noteq> []"
  shows "(truthy c \<and> (\<forall>x y. c \<noteq> JArr [x, y]) \<longrightarrow>
            fst (addNode g (JStr nodeId) ty c) = Inl invalid_coordinates_error) \<and>
         fst (addNode g (JStr nodeId) ty (JArr [x, y])) = Inr () \<and>
         getNodeCoordinates (snd (addNode g (JStr nodeId) ty (JArr [x, y]))) nodeId
           = JArr [x, y] \<and>
         (\<not> truthy c \<longrightarrow>
            fst (addNode g (JStr nodeId) ty c) = Inr () \<and>
            nodeCoordinates (snd (addNode g (JStr nodeId) ty c)) = nodeCoordinates g)"
proof -
  have a: "fst (addNode g (JStr nodeId) ty c) = Inl invalid_coordinates_error"
    if "truthy c" "\<forall>x y. c \<noteq> JArr [x, y]"
  proof -
    have "\<not> isArray c \<or> js_length c \<noteq> Some 2" using that(2) array2_iff [of c] by blast
    then show ?thesis using assms that(1) by (auto simp: addNode_def Let_def)
  qed
  have b: "fst (addNode g (JStr nodeId) ty (JArr [x, y])) = Inr ()"
    using assms by (simp add: addNode_def Let_def)
  have c: "getNodeCoordinates (snd (addNode g (JStr nodeId) ty (JArr [x, y]))) nodeId
             = JArr [x, y]"
    using assms by (simp add: addNode_def Let_def getNodeCoordinates_def map_of_map_set)
  have d: "fst (addNode g (JStr nodeId) ty c) = Inr () \<and>
           nodeCoordinates (snd (addNode g (JStr nodeId) ty c)) = nodeCoordinates g"
    if "\<not> truthy c"
    using assms that by (simp add: addNode_def Let_def)
  show ?thesis using a b c d by blast
qed

theorem addNode_coordinates_shape_witness:
  "fst (addNode new_WayfindingGraph (JStr ''wp_001'') WAYPOINT (JArr [JNum 1]))
     = Inl invalid_coordinates_error \<and>
   fst (addNode new_WayfindingGraph (JStr ''wp_001'') WAYPOINT (JStr ''invalid''))
     = Inl invalid_coordinates_error \<and>
   getNodeCoordinates
     (snd (addNode new_WayfindingGraph (JStr ''wp_001'') WAYPOINT (JArr [JNum 2, JNum 3])))
     ''wp_001'' = JArr [JNum 2, JNum 3] \<and>
   fst (addNode new_WayfindingGraph (JStr ''wp_001'') WAYPOINT (JNum 0)) = Inr ()"
proof -
  have t: "trim ''wp_001'' \<noteq> []" by (simp add: trim_def isWhiteSpace_def)
  have "truthy (JArr [JNum 1]) \<and> (\<forall>x y. JArr [JNum 1] \<noteq> JArr [x, y])"
    "truthy (JStr ''invalid'') \<and> (\<forall>x y. JStr ''invalid'' \<noteq> JArr [x, y])"
    "\<not> truthy (JNum 0)"
    by simp_all
  then show ?thesis
    using addNode_coordinates_shape [OF t, of "JArr [JNum 1]" new_WayfindingGraph WAYPOINT "JNum 2" "JNum 3"]
      addNode_coordinates_shape [OF t, of "JStr ''invalid''" new_WayfindingGraph WAYPOINT "JNum 2" "JNum 3"]
      addNode_coordinates_shape [OF t, of "JNum 0" new_WayfindingGraph WAYPOINT "JNum 2" "JNum 3"]
    by blast
qed

theorem addNode_non_numeric_pair_counterexample:
  "trim ''wp_001'' \<noteq> [] \<and>
   \<not> spec_numeric_pair (JArr [JStr ''east'', JStr ''north'']) \<and>
   fst (addNode new_WayfindingGraph (JStr ''wp_001'') WAYPOINT
          (JArr [JStr ''east'', JStr ''north''])) = Inr ()"
  by (simp add: addNode_def Let_def trim_def isWhiteSpace_def)

subsection \<open>Alternative paths\<close>

text \<open>
  Claim C7. No node other than the source and the target lies on two of the paths that
  \<^verbatim>\<open>findMultiplePaths\<close> returns.
\<close>

theorem findMultiplePaths_interior_disjoint:
  assumes "findMultiplePaths g s t maxPaths opts = Inr paths"
    and "i < j" and "j < length paths"
    and "x \<in> set (paths ! i)" and "x \<in> set (paths ! j)"
  shows "x = s \<or> x = t"
proof -
  have "multiple_paths_loop g s t opts (nat maxPaths) [] {} = Inr paths"
    using assms(1) by (simp add: findMultiplePaths_def)
  then have "\<forall>i j. i < j \<and> j < length paths \<longrightarrow> set (paths ! i) \<inter> set (paths ! j) \<subseteq> {s, t}"
    by (rule multiple_paths_loop_disjoint) simp_all
  then have "set (paths ! i) \<inter> set (paths ! j) \<subseteq> {s, t}" using assms(2,3) by blast
  then show ?thesis using assms(4,5) by auto
qed

theorem findMultiplePaths_interior_disjoint_witness:
  "findMultiplePaths routes_graph ''start'' ''end'' 3 default_options
     = Inr [[''start'', ''wp1'', ''end''], [''start'', ''wp2'', ''end''],
            [''start'', ''wp3'', ''end'']] \<and>
   ''end'' \<in> set ([[''start'', ''wp1'', ''end''], [''start'', ''wp2'', ''end''],
                    [''start'', ''wp3'', ''end'']] ! 0) \<and>
   ''end'' \<in> set ([[''start'', ''wp1'', ''end''], [''start'', ''wp2'', ''end''],
                    [''start'', ''wp3'', ''end'']] ! 2) \<and>
   (''end'' = ''start'' \<or> ''end'' = ''end'')"
proof -
  let ?ps = "[[''start'', ''wp1'', ''end''], [''start'', ''wp2'', ''end''],
              [''start'', ''wp3'', ''end'']]"
  have e: "findMultiplePaths routes_graph ''start'' ''end'' 3 default_options = Inr ?ps"
    by code_simp
  have m: "''end'' \<in> set (?ps ! 0)" "''end'' \<in> set (?ps ! 2)" by simp_all
  have "(0::nat) < 2" "2 < length ?ps" by simp_all
  from findMultiplePaths_interior_disjoint [OF e this m] e m show ?thesis by blast
qed

subsection \<open>Statistics\<close>

text \<open>
  Claim C8. \<^verbatim>\<open>getStatistics\<close> on a graph with the edge \<^verbatim>\<open>a - b\<close> added in both
  directions and the edge \<^verbatim>\<open>b - c\<close> added in one: the three neighbour sets have
  three entries, and \<^verbatim>\<open>totalEdges\<close> is their half.
\<close>

theorem getStatistics_totalEdges_mixed:
  "adjacencyList mixed_graph = [(''a'', [''b'']), (''b'', [''a'', ''c'']), (''c'', [])] \<and>
   totalNodes (getStatistics mixed_graph) = 3 \<and>
   totalEdges (getStatistics mixed_graph) = 3 / 2"
  by code_simp

subsection \<open>A failed insertion\<close>

text \<open>
  Claim C9. When \<^verbatim>\<open>addNode\<close> raises \<^verbatim>\<open>INVALID_COORDINATES\<close> for a string id, the
  graph it leaves behind has the node: \<^verbatim>\<open>hasNode\<close> is true of the id and
  \<^verbatim>\<open>getNodeType\<close> returns the type that was passed. Type tags are non-empty strings,
  as all of \<^verbatim>\<open>NODE_TYPES\<close> are (\<^verbatim>\<open>getNodeType\<close> reads an empty tag as
  \<^verbatim>\<open>unknown\<close>).
\<close>

theorem addNode_not_atomic:
  assumes "fst (addNode g (JStr nodeId) ty c) = Inl invalid_coordinates_error"
    and "ty \<noteq> []"
  shows "hasNode (snd (addNode g (JStr nodeId) ty c)) nodeId \<and>
         getNodeType (snd (addNode g (JStr nodeId) ty c)) nodeId = ty"
proof -
  have "invalid_node_id_error \<noteq> invalid_coordinates_error"
    by (simp add: invalid_node_id_error_def invalid_coordinates_error_def)
  then have "snd (addNode g (JStr nodeId) ty c)
        = g\<lparr>nodes := set_add nodeId (nodes g), nodeTypes := map_set nodeId ty (nodeTypes g)\<rparr>"
    using assms(1) by (auto simp: addNode_def Let_def split: if_splits)
  then show ?thesis
    using assms(2) by (simp add: hasNode_def getNodeType_def set_add_def map_of_map_set)
qed

theorem addNode_not_atomic_witness:
  "fst (addNode new_WayfindingGraph (JStr ''di_box_1'') DI_BOX (JArr [JNum 123]))
     = Inl invalid_coordinates_error \<and>
   \<not> hasNode new_WayfindingGraph ''di_box_1'' \<and>
   hasNode (snd (addNode new_WayfindingGraph (JStr ''di_box_1'') DI_BOX (JArr [JNum 123])))
     ''di_box_1'' \<and>
   getNodeType (snd (addNode new_WayfindingGraph (JStr ''di_box_1'') DI_BOX (JArr [JNum 123])))
     ''di_box_1'' = DI_BOX"
proof -
  have e: "fst (addNode new_WayfindingGraph (JStr ''di_box_1'') DI_BOX (JArr [JNum 123]))
             = Inl invalid_coordinates_error"
    by (simp add: addNode_def Let_def trim_def isWhiteSpace_def)
  have n: "DI_BOX \<noteq> []" by (simp add: DI_BOX_def)
  have "\<not> hasNode new_WayfindingGraph ''di_box_1''"
    by (simp add: hasNode_def new_WayfindingGraph_def)
  with addNode_not_atomic [OF e n] e show ?thesis by blast
qed

subsection \<open>Excluded nodes\<close>

text \<open>
  Claim C10. With the target in \<^verbatim>\<open>excludeNodes\<close> and distinct from the source,
  \<^verbatim>\<open>findPath\<close> returns \<^verbatim>\<open>null\<close>. Adding the source to \<^verbatim>\<open>excludeNodes\<close>
  changes nothing in what \<^verbatim>\<open>findPath\<close> returns.
\<close>

theorem excludeNodes_target_not_source:
  "(hasNode g s \<and> hasNode g t \<and> s \<noteq> t \<and> t \<in> excludeNodes opts \<longrightarrow>
      findPath g s t opts = Inr None) \<and>
   findPath g s t (opts\<lparr>excludeNodes := insert s (excludeNodes opts)\<rparr>) = findPath g s t opts"
proof
  show "hasNode g s \<and> hasNode g t \<and> s \<noteq> t \<and> t \<in> excludeNodes opts \<longrightarrow>
          findPath g s t opts = Inr None"
  proof
    assume a: "hasNode g s \<and> hasNode g t \<and> s \<noteq> t \<and> t \<in> excludeNodes opts"
    then obtain r where r: "findPath g s t opts = Inr r" by (auto simp: findPath_def)
    have "r = None"
    proof (cases r)
      case (Some p)
      from findPath_walk [of g s t opts p] r Some
      have w: "is_walk g opts p" and h: "hd p = s" and l: "last p = t"
        by (auto simp: walk_from_def)
      have "t \<in> set (tl p)" using w h l a by (cases p) (auto split: if_splits)
      then show ?thesis using is_walk_tl_not_excluded [OF w] a by blast
    qed simp
    then show "findPath g s t opts = Inr None" using r by simp
  qed
next
  let ?o = "opts\<lparr>excludeNodes := insert s (excludeNodes opts)\<rparr>"
  have "bfs g ?o t n [[s]] {s} = bfs g opts t n [[s]] {s}" for n
    by (rule bfs_exclude_source) simp_all
  then show "findPath g s t ?o = findPath g s t opts"
    by (simp add: findPath_def)
qed

theorem excludeNodes_target_not_source_witness:
  "findPath chain_graph ''di_box_1'' ''cabinet_1''
     (default_options\<lparr>excludeNodes := {''cabinet_1''}\<rparr>) = Inr None \<and>
   findPath chain_graph ''di_box_1'' ''cabinet_1''
     (default_options\<lparr>excludeNodes := {''di_box_1''}\<rparr>)
     = Inr (Some [''di_box_1'', ''wp_001'', ''wp_002'', ''wp_003'', ''cabinet_1''])"
proof -
  have h: "hasNode chain_graph ''di_box_1''" "hasNode chain_graph ''cabinet_1''"
    by code_simp+
  have e: "findPath chain_graph ''di_box_1'' ''cabinet_1'' default_options
             = Inr (Some [''di_box_1'', ''wp_001'', ''wp_002'', ''wp_003'', ''cabinet_1''])"
    by code_simp
  have o: "default_options\<lparr>excludeNodes := insert ''di_box_1'' (excludeNodes default_options)\<rparr>
             = default_options\<lparr>excludeNodes := {''di_box_1''}\<rparr>"
    by (simp add: default_options_def)
  show ?thesis
    using h e
      excludeNodes_target_not_source [of chain_graph "''di_box_1''" "''cabinet_1''"
        "default_options\<lparr>excludeNodes := {''cabinet_1''}\<rparr>"]
      excludeNodes_target_not_source [of chain_graph "''di_box_1''" "''cabinet_1''"
        default_options]
    unfolding o by simp
qed

end
